theory Spec2Isabelle
  imports Main "HOL-Library.Word"
begin

unbundle bit_operations_syntax

section \<open>The task manager component of \<^verbatim>\<open>src/Frontend/src/App.tsx\<close>\<close>

text \<open>
  The component keeps four pieces of state (\<^verbatim>\<open>tasks\<close>, \<^verbatim>\<open>newTask\<close>,
  \<^verbatim>\<open>loading\<close>, \<^verbatim>\<open>filter\<close>), mirrors \<^verbatim>\<open>tasks\<close> into the
  \<^verbatim>\<open>localStorage\<close> item \<^verbatim>\<open>'tasks'\<close>, and talks to a remote service through
  four asynchronous calls. A JavaScript string is a sequence of UTF-16 code units, so
  strings are lists of 16-bit words here.

  An \<^verbatim>\<open>async\<close> handler runs in two parts. The part up to its \<^verbatim>\<open>await\<close> runs when the
  handler is called, on the state of the last render, and leaves a call in flight. The
  part after the \<^verbatim>\<open>await\<close> runs when the call ends, on the state of that moment, with
  the variables the handler closed over. Other events can come in between, so the model
  keeps the calls in flight in its state and lets them end in any order.
\<close>

subsection \<open>Data\<close>

type_synonym code_unit = "16 word"
type_synonym jsstring = "code_unit list"

text \<open>An ASCII literal of the source, as code units.\<close>

definition ascii :: "string \<Rightarrow> jsstring" where
  "ascii s = map (\<lambda>c. of_nat (of_char c)) s"

text \<open>
  Modelled from the spec: the interface \<^verbatim>\<open>Task\<close> of \<^verbatim>\<open>./types\<close>, a file that is
  not among the sources. The spec's data model gives a task an \<^verbatim>\<open>id\<close> (a string),
  a \<^verbatim>\<open>description\<close> (text) and \<^verbatim>\<open>isCompleted\<close> (a boolean); they are the fields
  the component reads. The field \<^verbatim>\<open>id\<close> is \<open>id_t\<close> here, \<open>id\<close> being the identity
  function of HOL.
\<close>

record Task =
  id_t :: jsstring
  description :: jsstring
  isCompleted :: bool

text \<open>\<^verbatim>\<open>type FilterType = 'all' | 'active' | 'completed'\<close>\<close>

datatype FilterType = Filter_all | Filter_active | Filter_completed

subsection \<open>The platform's JSON text\<close>

text \<open>
  \<^verbatim>\<open>JSON.stringify(tasks)\<close> of an array of task objects: no white space, the
  elements separated by commas, each object's properties in the order \<^verbatim>\<open>id\<close>,
  \<^verbatim>\<open>description\<close>, \<^verbatim>\<open>isCompleted\<close>. A string is quoted as ECMAScript's
  QuoteJSONString does: two-character escapes for \<open>"\<close>, \<open>\\<close>, backspace, form
  feed, line feed, carriage return and tab; \<^verbatim>\<open>\uXXXX\<close> with lower-case hex digits
  for every other code unit below \<open>0x20\<close> and for a surrogate that is not part of a
  pair; every other code unit as it is.
\<close>

definition hexdigit :: "nat \<Rightarrow> code_unit" where
  "hexdigit d = of_nat (if d < 10 then 48 + d else 87 + d)"

definition unicode_escape :: "code_unit \<Rightarrow> jsstring" where
  "unicode_escape c =
     [0x5C, 0x75,
      hexdigit (unat c div 4096 mod 16), hexdigit (unat c div 256 mod 16),
      hexdigit (unat c div 16 mod 16), hexdigit (unat c mod 16)]"

definition is_lead :: "code_unit \<Rightarrow> bool" where
  "is_lead c = (0xD800 \<le> c \<and> c \<le> 0xDBFF)"

definition is_trail :: "code_unit \<Rightarrow> bool" where
  "is_trail c = (0xDC00 \<le> c \<and> c \<le> 0xDFFF)"

definition quote_unit :: "code_unit \<Rightarrow> jsstring" where
  "quote_unit c =
     (if c = 0x08 then [0x5C, 0x62]
      else if c = 0x09 then [0x5C, 0x74]
      else if c = 0x0A then [0x5C, 0x6E]
      else if c = 0x0C then [0x5C, 0x66]
      else if c = 0x0D then [0x5C, 0x72]
      else if c = 0x22 then [0x5C, 0x22]
      else if c = 0x5C then [0x5C, 0x5C]
      else if c < 0x20 \<or> is_lead c \<or> is_trail c then unicode_escape c
      else [c])"

fun quote_units :: "jsstring \<Rightarrow> jsstring" where
  "quote_units [] = []"
| "quote_units [c] = quote_unit c"
| "quote_units (c # d # ds) =
     (if is_lead c \<and> is_trail d then c # d # quote_units ds
      else quote_unit c @ quote_units (d # ds))"

definition QuoteJSONString :: "jsstring \<Rightarrow> jsstring" where
  "QuoteJSONString s = 0x22 # quote_units s @ [0x22]"

definition stringify_task :: "Task \<Rightarrow> jsstring" where
  "stringify_task t =
     0x7B # QuoteJSONString (ascii ''id'') @ 0x3A # QuoteJSONString (id_t t)
     @ 0x2C # QuoteJSONString (ascii ''description'') @ 0x3A # QuoteJSONString (description t)
     @ 0x2C # QuoteJSONString (ascii ''isCompleted'') @ 0x3A
       # (if isCompleted t then ascii ''true'' else ascii ''false'')
     @ [0x7D]"

fun stringify_elements :: "Task list \<Rightarrow> jsstring" where
  "stringify_elements [] = []"
| "stringify_elements [t] = stringify_task t"
| "stringify_elements (t # u # us) = stringify_task t @ 0x2C # stringify_elements (u # us)"

definition JSON_stringify :: "Task list \<Rightarrow> jsstring" where
  "JSON_stringify ts = 0x5B # stringify_elements ts @ [0x5D]"

text \<open>
  \<^verbatim>\<open>JSON.parse\<close> reads any JSON text (ECMA-404) and throws a SyntaxError on
  everything else. The value of a number is not needed here: a number is kept as its
  lexeme. The reader recurses on a fuel argument; \<open>JSON_parse\<close> gives it more fuel
  than the text can use (\<open>JSON_parse_total\<close> below).
\<close>

datatype json =
    JNull
  | JBool bool
  | JNumber jsstring
  | JString jsstring
  | JArray "json list"
  | JObject "(jsstring \<times> json) list"

datatype parse_error = SyntaxError | OutOfFuel

definition is_ws :: "code_unit \<Rightarrow> bool" where
  "is_ws c = (c = 0x20 \<or> c = 0x09 \<or> c = 0x0A \<or> c = 0x0D)"

definition skip_ws :: "jsstring \<Rightarrow> jsstring" where
  "skip_ws s = dropWhile is_ws s"

definition unhex :: "code_unit \<Rightarrow> nat option" where
  "unhex c =
     (if 0x30 \<le> c \<and> c \<le> 0x39 then Some (unat c - 48)
      else if 0x61 \<le> c \<and> c \<le> 0x66 then Some (unat c - 87)
      else if 0x41 \<le> c \<and> c \<le> 0x46 then Some (unat c - 55)
      else None)"

definition unhex4 :: "code_unit \<Rightarrow> code_unit \<Rightarrow> code_unit \<Rightarrow> code_unit \<Rightarrow> code_unit option" where
  "unhex4 a b c d =
     (case (unhex a, unhex b, unhex c, unhex d) of
        (Some h3, Some h2, Some h1, Some h0) \<Rightarrow> Some (of_nat (((h3 * 16 + h2) * 16 + h1) * 16 + h0))
      | _ \<Rightarrow> None)"

definition unescape :: "code_unit \<Rightarrow> code_unit option" where
  "unescape e =
     (if e = 0x22 \<or> e = 0x5C \<or> e = 0x2F then Some e
      else if e = 0x62 then Some 0x08
      else if e = 0x66 then Some 0x0C
      else if e = 0x6E then Some 0x0A
      else if e = 0x72 then Some 0x0D
      else if e = 0x74 then Some 0x09
      else None)"

text \<open>The characters of a string, after its opening quote, up to the closing one.\<close>

fun parse_chars :: "jsstring \<Rightarrow> (jsstring \<times> jsstring) option" where
  "parse_chars [] = None"
| "parse_chars (c # cs) =
     (if c = 0x22 then Some ([], cs)
      else if c = 0x5C then
        (case cs of
           [] \<Rightarrow> None
         | e # r \<Rightarrow>
             if e = 0x75 then
               (case r of
                  h3 # h2 # h1 # h0 # r' \<Rightarrow>
                    (case unhex4 h3 h2 h1 h0 of
                       None \<Rightarrow> None
                     | Some u \<Rightarrow> map_option (\<lambda>(str, rest). (u # str, rest)) (parse_chars r'))
                | _ \<Rightarrow> None)
             else
               (case unescape e of
                  None \<Rightarrow> None
                | Some u \<Rightarrow> map_option (\<lambda>(str, rest). (u # str, rest)) (parse_chars r)))
      else if c < 0x20 then None
      else map_option (\<lambda>(str, rest). (c # str, rest)) (parse_chars cs))"

definition is_digit :: "code_unit \<Rightarrow> bool" where
  "is_digit c = (0x30 \<le> c \<and> c \<le> 0x39)"

text \<open>
  A number: an optional minus, an integer part without a leading zero, an optional
  fraction and an optional exponent. Each part is returned with the text after it.
\<close>

definition digits :: "jsstring \<Rightarrow> (jsstring \<times> jsstring) option" where
  "digits s =
     (if takeWhile is_digit s = [] then None
      else Some (takeWhile is_digit s, dropWhile is_digit s))"

definition fraction :: "jsstring \<Rightarrow> (jsstring \<times> jsstring) option" where
  "fraction s =
     (case s of
        [] \<Rightarrow> Some ([], s)
      | c # r \<Rightarrow>
          if c = 0x2E then map_option (\<lambda>(ds, r'). (c # ds, r')) (digits r)
          else Some ([], s))"

definition exponent :: "jsstring \<Rightarrow> (jsstring \<times> jsstring) option" where
  "exponent s =
     (case s of
        [] \<Rightarrow> Some ([], s)
      | c # r \<Rightarrow>
          if c = 0x65 \<or> c = 0x45 then
            (case r of
               [] \<Rightarrow> None
             | g # r0 \<Rightarrow>
                 if g = 0x2B \<or> g = 0x2D
                 then map_option (\<lambda>(ds, r'). (c # g # ds, r')) (digits r0)
                 else map_option (\<lambda>(ds, r'). (c # ds, r')) (digits r))
          else Some ([], s))"

definition parse_number :: "jsstring \<Rightarrow> (jsstring \<times> jsstring) option" where
  "parse_number s =
     (let (sign, s1) = (case s of
                          [] \<Rightarrow> ([], s)
                        | c # r \<Rightarrow> if c = 0x2D then ([c], r) else ([], s))
      in case digits s1 of
           None \<Rightarrow> None
         | Some (ds, s2) \<Rightarrow>
             if hd ds = 0x30 \<and> length ds > 1 then None
             else (case fraction s2 of
                     None \<Rightarrow> None
                   | Some (frac, s3) \<Rightarrow>
                       (case exponent s3 of
                          None \<Rightarrow> None
                        | Some (ex, s4) \<Rightarrow> Some (sign @ ds @ frac @ ex, s4))))"

fun strip_prefix :: "jsstring \<Rightarrow> jsstring \<Rightarrow> jsstring option" where
  "strip_prefix [] s = Some s"
| "strip_prefix (p # ps) [] = None"
| "strip_prefix (p # ps) (c # cs) = (if p = c then strip_prefix ps cs else None)"

text \<open>A value that is not an object or an array, from its first code unit \<open>c\<close>.\<close>

definition parse_scalar :: "code_unit \<Rightarrow> jsstring \<Rightarrow> parse_error + (json \<times> jsstring)" where
  "parse_scalar c cs =
     (if c = 0x22 then
        (case parse_chars cs of
           None \<Rightarrow> Inl SyntaxError
         | Some (str, r) \<Rightarrow> Inr (JString str, r))
      else if c = 0x74 then
        (case strip_prefix (ascii ''rue'') cs of
           None \<Rightarrow> Inl SyntaxError
         | Some r \<Rightarrow> Inr (JBool True, r))
      else if c = 0x66 then
        (case strip_prefix (ascii ''alse'') cs of
           None \<Rightarrow> Inl SyntaxError
         | Some r \<Rightarrow> Inr (JBool False, r))
      else if c = 0x6E then
        (case strip_prefix (ascii ''ull'') cs of
           None \<Rightarrow> Inl SyntaxError
         | Some r \<Rightarrow> Inr (JNull, r))
      else if c = 0x2D \<or> is_digit c then
        (case parse_number (c # cs) of
           None \<Rightarrow> Inl SyntaxError
         | Some (lexeme, r) \<Rightarrow> Inr (JNumber lexeme, r))
      else Inl SyntaxError)"

fun parse_value :: "nat \<Rightarrow> jsstring \<Rightarrow> parse_error + (json \<times> jsstring)"
  and parse_elements :: "nat \<Rightarrow> jsstring \<Rightarrow> parse_error + (json list \<times> jsstring)"
  and parse_members :: "nat \<Rightarrow> jsstring \<Rightarrow> parse_error + ((jsstring \<times> json) list \<times> jsstring)"
where
  "parse_value 0 s = Inl OutOfFuel"
| "parse_value (Suc n) s =
     (case skip_ws s of
        [] \<Rightarrow> Inl SyntaxError
      | c # cs \<Rightarrow>
          if c = 0x7B then
            (case skip_ws cs of
               [] \<Rightarrow> Inl SyntaxError
             | d # ds \<Rightarrow>
                 if d = 0x7D then Inr (JObject [], ds)
                 else (case parse_members n (d # ds) of
                         Inl e \<Rightarrow> Inl e
                       | Inr (ms, r) \<Rightarrow> Inr (JObject ms, r)))
          else if c = 0x5B then
            (case skip_ws cs of
               [] \<Rightarrow> Inl SyntaxError
             | d # ds \<Rightarrow>
                 if d = 0x5D then Inr (JArray [], ds)
                 else (case parse_elements n (d # ds) of
                         Inl e \<Rightarrow> Inl e
                       | Inr (vs, r) \<Rightarrow> Inr (JArray vs, r)))
          else parse_scalar c cs)"
| "parse_elements 0 s = Inl OutOfFuel"
| "parse_elements (Suc n) s =
     (case parse_value n s of
        Inl e \<Rightarrow> Inl e
      | Inr (v, r) \<Rightarrow>
          (case skip_ws r of
             [] \<Rightarrow> Inl SyntaxError
           | c # cs \<Rightarrow>
               if c = 0x5D then Inr ([v], cs)
               else if c = 0x2C then
                 (case parse_elements n cs of
                    Inl e \<Rightarrow> Inl e
                  | Inr (vs, r') \<Rightarrow> Inr (v # vs, r'))
               else Inl SyntaxError))"
| "parse_members 0 s = Inl OutOfFuel"
| "parse_members (Suc n) s =
     (case skip_ws s of
        [] \<Rightarrow> Inl SyntaxError
      | c # cs \<Rightarrow>
          if c = 0x22 then
            (case parse_chars cs of
               None \<Rightarrow> Inl SyntaxError
             | Some (k, r) \<Rightarrow>
                 (case skip_ws r of
                    [] \<Rightarrow> Inl SyntaxError
                  | d # ds \<Rightarrow>
                      if d = 0x3A then
                        (case parse_value n ds of
                           Inl e \<Rightarrow> Inl e
                         | Inr (v, r2) \<Rightarrow>
                             (case skip_ws r2 of
                                [] \<Rightarrow> Inl SyntaxError
                              | e # es \<Rightarrow>
                                  if e = 0x7D then Inr ([(k, v)], es)
                                  else if e = 0x2C then
                                    (case parse_members n es of
                                       Inl e \<Rightarrow> Inl e
                                     | Inr (ms, r3) \<Rightarrow> Inr ((k, v) # ms, r3))
                                  else Inl SyntaxError))
                      else Inl SyntaxError))
          else Inl SyntaxError)"

definition JSON_parse :: "jsstring \<Rightarrow> parse_error + json" where
  "JSON_parse s =
     (case parse_value (Suc (2 * length s)) s of
        Inl e \<Rightarrow> Inl e
      | Inr (v, r) \<Rightarrow> if skip_ws r = [] then Inr v else Inl SyntaxError)"

subsection \<open>Derived data: the filtered view and the counters\<close>

text \<open>
  \<^verbatim>\<open>
  const filteredTasks = tasks.filter(task => {
    if (filter === 'active') return !task.isCompleted;
    if (filter === 'completed') return task.isCompleted;
    return true;
  });
  \<close>
\<close>

definition filteredTasks :: "Task list \<Rightarrow> FilterType \<Rightarrow> Task list" where
  "filteredTasks ts f =
     filter (\<lambda>task.
       if f = Filter_active then \<not> isCompleted task
       else if f = Filter_completed then isCompleted task
       else True) ts"

text \<open>
  \<^verbatim>\<open>
  const stats = {
    total: tasks.length,
    active: tasks.filter(t => !t.isCompleted).length,
    completed: tasks.filter(t => t.isCompleted).length
  };
  \<close>
\<close>

record Stats =
  total :: nat
  active :: nat
  completed :: nat

definition stats :: "Task list \<Rightarrow> Stats" where
  "stats ts =
     \<lparr> total = length ts,
       active = length (filter (\<lambda>t. \<not> isCompleted t) ts),
       completed = length (filter (\<lambda>t. isCompleted t) ts) \<rparr>"

subsection \<open>The component's state and the world around it\<close>

text \<open>
  A remote call in flight, with what the rest of its handler closed over: the arguments
  of \<^verbatim>\<open>createTask\<close>, \<^verbatim>\<open>updateTask\<close> and \<^verbatim>\<open>deleteTask\<close>, and the \<^verbatim>\<open>tasks\<close>
  of the render whose handler made the call (the handler goes on with that array after
  its \<^verbatim>\<open>await\<close>, not with the state of that later moment).
\<close>

datatype remote_call =
    GetTasks
  | CreateTask jsstring "Task list"
  | UpdateTask jsstring jsstring bool "Task list"
  | DeleteTask jsstring "Task list"

text \<open>
  Modelled from the spec: the result types of \<^verbatim>\<open>getTasks\<close>, \<^verbatim>\<open>createTask\<close>,
  \<^verbatim>\<open>updateTask\<close> and \<^verbatim>\<open>deleteTask\<close> of \<^verbatim>\<open>./api\<close>, a file that is not among
  the sources. By the spec's contract of the remote service a list yields a sequence of
  tasks, a create and an update yield a task, a delete yields nothing, and each of them
  can fail. A call ends with its promise rejected, or fulfilled with a value of its type.
\<close>

datatype response = Rejected | Tasks_reply "Task list" | Task_reply Task | Void_reply

text \<open>
  The four \<^verbatim>\<open>useState\<close> cells, the \<^verbatim>\<open>localStorage\<close> item \<^verbatim>\<open>'tasks'\<close>
  (\<open>None\<close> when there is none) and the calls in flight.
\<close>

record App =
  tasks :: "Task list"
  newTask :: jsstring
  loading :: bool
  filter_s :: FilterType
  storage :: "jsstring option"
  inflight :: "remote_call list"

text \<open>
  \<^verbatim>\<open>String.prototype.trim\<close> removes white space and line terminators from both
  ends: TAB, LF, VT, FF, CR, SP, NBSP, U+1680, U+2000 to U+200A, U+2028, U+2029,
  U+202F, U+205F, U+3000 and U+FEFF.
\<close>

definition is_trim_space :: "code_unit \<Rightarrow> bool" where
  "is_trim_space c =
     ((0x09 \<le> c \<and> c \<le> 0x0D) \<or> c = 0x20 \<or> c = 0xA0 \<or> c = 0x1680
      \<or> (0x2000 \<le> c \<and> c \<le> 0x200A) \<or> c = 0x2028 \<or> c = 0x2029 \<or> c = 0x202F
      \<or> c = 0x205F \<or> c = 0x3000 \<or> c = 0xFEFF)"

definition trim :: "jsstring \<Rightarrow> jsstring" where
  "trim s = rev (dropWhile is_trim_space (rev (dropWhile is_trim_space s)))"

text \<open>
  The second effect, \<^verbatim>\<open>localStorage.setItem('tasks', JSON.stringify(tasks))\<close>
  with dependency \<^verbatim>\<open>[tasks]\<close>: it runs after the first render and after every render
  with a new \<^verbatim>\<open>tasks\<close> array. Every \<^verbatim>\<open>setTasks\<close> of the component passes a new
  array, so \<open>setTasks\<close> is the update, the render and that effect.
\<close>

definition save_effect :: "App \<Rightarrow> App" where
  "save_effect a = a\<lparr>storage := Some (JSON_stringify (tasks a))\<rparr>"

definition setTasks :: "Task list \<Rightarrow> App \<Rightarrow> App" where
  "setTasks v a = save_effect (a\<lparr>tasks := v\<rparr>)"

definition setNewTask :: "jsstring \<Rightarrow> App \<Rightarrow> App" where
  "setNewTask v a = a\<lparr>newTask := v\<rparr>"

definition setLoading :: "bool \<Rightarrow> App \<Rightarrow> App" where
  "setLoading v a = a\<lparr>loading := v\<rparr>"

definition setFilter :: "FilterType \<Rightarrow> App \<Rightarrow> App" where
  "setFilter v a = a\<lparr>filter_s := v\<rparr>"

definition call :: "remote_call \<Rightarrow> App \<Rightarrow> App" where
  "call c a = a\<lparr>inflight := inflight a @ [c]\<rparr>"

subsection \<open>The handlers, up to their \<^verbatim>\<open>await\<close>\<close>

text \<open>\<^verbatim>\<open>loadTasks\<close>: \<^verbatim>\<open>const data = await getTasks();\<close>\<close>

definition loadTasks :: "App \<Rightarrow> App" where
  "loadTasks a = call GetTasks a"

text \<open>
  \<^verbatim>\<open>
  const handleAddTask = async (e: React.FormEvent) => {
    e.preventDefault();
    if (!newTask.trim()) return;
    setLoading(true);
    try {
      const task = await createTask(newTask);
  \<close>
\<close>

definition handleAddTask :: "App \<Rightarrow> App" where
  "handleAddTask a =
     (if trim (newTask a) = [] then a
      else call (CreateTask (newTask a) (tasks a)) (setLoading True a))"

text \<open>\<^verbatim>\<open>const updated = await updateTask(task.id, task.description, !task.isCompleted);\<close>\<close>

definition handleToggleComplete :: "Task \<Rightarrow> App \<Rightarrow> App" where
  "handleToggleComplete task a =
     call (UpdateTask (id_t task) (description task) (\<not> isCompleted task) (tasks a)) a"

text \<open>\<^verbatim>\<open>await deleteTask(id);\<close>\<close>

definition handleDeleteTask :: "jsstring \<Rightarrow> App \<Rightarrow> App" where
  "handleDeleteTask i a = call (DeleteTask i (tasks a)) a"

subsection \<open>The handlers, after their \<^verbatim>\<open>await\<close>\<close>

text \<open>
  What a handler does once its call has ended, in the state of that moment. \<open>None\<close>: the
  call cannot end with a response of that type.
  \<^verbatim>\<open>
  loadTasks:             setTasks(data);                          catch: console.error
  handleAddTask:         setTasks([...tasks, task]); setNewTask('');
                                                  catch: console.error; finally: setLoading(false)
  handleToggleComplete:  setTasks(tasks.map(t => t.id === task.id ? updated : t));
  handleDeleteTask:      setTasks(tasks.filter(t => t.id !== id));
  \<close>
\<close>

fun resume :: "remote_call \<Rightarrow> response \<Rightarrow> App \<Rightarrow> App option" where
  "resume GetTasks r a =
     (case r of
        Tasks_reply data \<Rightarrow> Some (setTasks data a)
      | Rejected \<Rightarrow> Some a
      | _ \<Rightarrow> None)"
| "resume (CreateTask d captured) r a =
     (case r of
        Task_reply task \<Rightarrow> Some (setLoading False (setNewTask [] (setTasks (captured @ [task]) a)))
      | Rejected \<Rightarrow> Some (setLoading False a)
      | _ \<Rightarrow> None)"
| "resume (UpdateTask i d c captured) r a =
     (case r of
        Task_reply updated \<Rightarrow>
          Some (setTasks (map (\<lambda>t. if id_t t = i then updated else t) captured) a)
      | Rejected \<Rightarrow> Some a
      | _ \<Rightarrow> None)"
| "resume (DeleteTask i captured) r a =
     (case r of
        Void_reply \<Rightarrow> Some (setTasks (filter (\<lambda>t. id_t t \<noteq> i) captured) a)
      | Rejected \<Rightarrow> Some a
      | _ \<Rightarrow> None)"

text \<open>The call at position \<open>k\<close> of those in flight ends with response \<open>r\<close>.\<close>

definition settle :: "nat \<Rightarrow> response \<Rightarrow> App \<Rightarrow> App option" where
  "settle k r a =
     (if k < length (inflight a)
      then resume (inflight a ! k) r
             (a\<lparr>inflight := take k (inflight a) @ drop (Suc k) (inflight a)\<rparr>)
      else None)"

subsection \<open>Mounting: the first render and its effects\<close>

text \<open>
  \<^verbatim>\<open>setTasks(JSON.parse(saved))\<close> stores what the parser returns, whatever it is. The
  state of the model holds values of the declared type \<^verbatim>\<open>Task[]\<close> only, and
  \<open>as_tasks\<close> recognises the parsed values that are such a value and nothing more:
  arrays of objects with exactly the properties \<^verbatim>\<open>id\<close> (a string),
  \<^verbatim>\<open>description\<close> (a string) and \<^verbatim>\<open>isCompleted\<close> (a boolean), in the order in which
  \<open>JSON_stringify\<close> writes them. Mounting with any other parsed value is not modelled
  (\<open>Not_a_Task_array\<close>).
\<close>

fun as_task :: "json \<Rightarrow> Task option" where
  "as_task (JObject [(k1, JString i), (k2, JString d), (k3, JBool c)]) =
     (if k1 = ascii ''id'' \<and> k2 = ascii ''description'' \<and> k3 = ascii ''isCompleted''
      then Some \<lparr>id_t = i, description = d, isCompleted = c\<rparr>
      else None)"
| "as_task _ = None"

fun as_tasks :: "json \<Rightarrow> Task list option" where
  "as_tasks (JArray vs) = those (map as_task vs)"
| "as_tasks _ = None"

datatype failure = Thrown parse_error | Not_a_Task_array

definition initial :: "jsstring option \<Rightarrow> App" where
  "initial item =
     \<lparr> tasks = [], newTask = [], loading = False, filter_s = Filter_all,
       storage = item, inflight = [] \<rparr>"

text \<open>
  The first effect. It ends with the \<^verbatim>\<open>tasks\<close> it has asked React to set (if any) and
  the state in which \<^verbatim>\<open>loadTasks()\<close> has made its call, or with the exception that
  \<^verbatim>\<open>JSON.parse\<close> threw: nothing in the effect catches it, so the statements after it
  do not run. An empty string is falsy, like the \<^verbatim>\<open>null\<close> of a missing item.
  \<^verbatim>\<open>
  useEffect(() => {
    // Load from localStorage first
    const saved = localStorage.getItem('tasks');
    if (saved) {
      setTasks(JSON.parse(saved));
    }
    loadTasks();
  }, []);
  \<close>
\<close>

definition load_effect :: "App \<Rightarrow> failure + (Task list option \<times> App)" where
  "load_effect a =
     (case storage a of
        None \<Rightarrow> Inr (None, loadTasks a)
      | Some saved \<Rightarrow>
          if saved = [] then Inr (None, loadTasks a)
          else (case JSON_parse saved of
                  Inl e \<Rightarrow> Inl (Thrown e)
                | Inr v \<Rightarrow>
                    (case as_tasks v of
                       None \<Rightarrow> Inl Not_a_Task_array
                     | Some ts \<Rightarrow> Inr (Some ts, loadTasks a))))"

text \<open>
  Mounting with a given \<^verbatim>\<open>localStorage\<close> item: the first render has \<^verbatim>\<open>tasks = []\<close>;
  both effects run in the order of the source (the second one writes the empty array of
  that render); then the update the first effect asked for is applied.
\<close>

definition mount :: "jsstring option \<Rightarrow> failure + App" where
  "mount item =
     (case load_effect (initial item) of
        Inl e \<Rightarrow> Inl e
      | Inr (update, a) \<Rightarrow>
          (case update of
             None \<Rightarrow> Inr (save_effect a)
           | Some ts \<Rightarrow> Inr (setTasks ts (save_effect a))))"

subsection \<open>The view's controls\<close>

text \<open>
  The submit button has \<^verbatim>\<open>disabled={loading || !newTask.trim()}\<close> and the text input
  \<^verbatim>\<open>disabled={loading}\<close>. The form's \<^verbatim>\<open>onSubmit\<close> is \<^verbatim>\<open>handleAddTask\<close>; a form
  whose submit button is disabled is not submitted, neither by a click on the button nor
  by the Enter key in its input.
\<close>

definition add_button_disabled :: "App \<Rightarrow> bool" where
  "add_button_disabled a = (loading a \<or> trim (newTask a) = [])"

definition submit :: "App \<Rightarrow> App" where
  "submit a = (if add_button_disabled a then a else handleAddTask a)"

text \<open>
  What can happen next: the user types in the enabled input, submits the form, picks a
  filter, ticks the checkbox or presses the delete button of a task on display, or a call
  in flight ends.
\<close>

inductive step :: "App \<Rightarrow> App \<Rightarrow> bool" where
  typing: "\<not> loading a \<Longrightarrow> step a (setNewTask v a)"
| submitting: "step a (submit a)"
| filtering: "step a (setFilter f a)"
| toggling: "task \<in> set (filteredTasks (tasks a) (filter_s a)) \<Longrightarrow> step a (handleToggleComplete task a)"
| deleting: "task \<in> set (filteredTasks (tasks a) (filter_s a)) \<Longrightarrow> step a (handleDeleteTask (id_t task) a)"
| settling: "settle k r a = Some b \<Longrightarrow> step a b"

inductive reachable :: "App \<Rightarrow> bool" where
  mounted: "mount item = Inr a \<Longrightarrow> reachable a"
| stepped: "reachable a \<Longrightarrow> step a b \<Longrightarrow> reachable b"

fun is_create :: "remote_call \<Rightarrow> bool" where
  "is_create (CreateTask d captured) = True"
| "is_create _ = False"

definition creates_in_flight :: "App \<Rightarrow> nat" where
  "creates_in_flight a = length (filter is_create (inflight a))"

subsection \<open>Values used in the proofs and examples\<close>

text \<open>The value \<^verbatim>\<open>JSON.parse\<close> returns for the text of a task.\<close>

definition task_json :: "Task \<Rightarrow> json" where
  "task_json t =
     JObject [(ascii ''id'', JString (id_t t)),
              (ascii ''description'', JString (description t)),
              (ascii ''isCompleted'', JBool (isCompleted t))]"

definition milk :: Task where
  "milk = \<lparr>id_t = ascii ''1'', description = ascii ''Buy milk'', isCompleted = False\<rparr>"

definition milk_done :: Task where
  "milk_done = \<lparr>id_t = ascii ''1'', description = ascii ''Buy milk'', isCompleted = True\<rparr>"

definition bread :: Task where
  "bread = \<lparr>id_t = ascii ''2'', description = ascii ''Buy bread'', isCompleted = True\<rparr>"

text \<open>The state after mounting without a cache, when the fetch has been rejected.\<close>

definition idle :: App where
  "idle = \<lparr> tasks = [], newTask = [], loading = False, filter_s = Filter_all,
            storage = Some (JSON_stringify []), inflight = [] \<rparr>"

text \<open>The state after \<^verbatim>\<open>Buy milk\<close> has then been typed and submitted: a create is in flight.\<close>

definition pending :: App where
  "pending = \<lparr> tasks = [], newTask = ascii ''Buy milk'', loading = True, filter_s = Filter_all,
               storage = Some (JSON_stringify []),
               inflight = [CreateTask (ascii ''Buy milk'') []] \<rparr>"

text \<open>A state showing two tasks, with nothing in flight.\<close>

definition two_tasks :: App where
  "two_tasks = \<lparr> tasks = [milk, bread], newTask = [], loading = False, filter_s = Filter_all,
                 storage = Some (JSON_stringify [milk, bread]), inflight = [] \<rparr>"

text \<open>Two more answers of the service: the bread reopened, and the milk under another id.\<close>

definition bread_open :: Task where
  "bread_open = \<lparr>id_t = ascii ''2'', description = ascii ''Buy bread'', isCompleted = False\<rparr>"

definition nine :: Task where
  "nine = \<lparr>id_t = ascii ''9'', description = ascii ''Buy milk'', isCompleted = True\<rparr>"

text \<open>
  The state after both tasks of \<open>two_tasks\<close> have been deleted one after the other and
  the first delete has been fulfilled: the second is still in flight.
\<close>

definition bread_left :: App where
  "bread_left = \<lparr> tasks = [bread], newTask = [], loading = False, filter_s = Filter_all,
                  storage = Some (JSON_stringify [bread]),
                  inflight = [DeleteTask (ascii ''2'') [milk, bread]] \<rparr>"

section \<open>Properties\<close>

subsection \<open>The JSON reader consumes its input and has fuel enough\<close>

text \<open>
  Every part of the reader returns a text shorter than the one it was given, so the fuel
  \<open>JSON_parse\<close> starts with, one more than twice the length of the text, is never used
  up: \<open>JSON_parse\<close> ends with a value or with a SyntaxError.
\<close>

lemma skip_ws_length: "length (skip_ws s) \<le> length s"
  by (simp add: skip_ws_def length_dropWhile_le)

lemma skip_ws_Cons_length: "skip_ws s = c # cs \<Longrightarrow> length cs < length s"
  using skip_ws_length [of s] by simp

lemma parse_chars_length: "parse_chars s = Some (k, r) \<Longrightarrow> length r < length s"
proof (induction s arbitrary: k rule: parse_chars.induct)
  case 1
  then show ?case by simp
next
  case (2 c cs)
  then show ?case
    by (fastforce split: if_splits list.splits option.splits)
qed

lemma strip_prefix_length: "strip_prefix ps s = Some r \<Longrightarrow> length r \<le> length s"
  by (induction ps s rule: strip_prefix.induct) (auto split: if_splits)

lemma digits_length: "digits s = Some (ds, r) \<Longrightarrow> length r < length s"
proof -
  assume "digits s = Some (ds, r)"
  then have t: "takeWhile is_digit s \<noteq> []" and r: "r = dropWhile is_digit s"
    by (auto simp: digits_def split: if_splits)
  have "length (takeWhile is_digit s) + length (dropWhile is_digit s) = length s"
    by (metis length_append takeWhile_dropWhile_id)
  with t r show ?thesis by (cases "takeWhile is_digit s") auto
qed

lemma fraction_length: "fraction s = Some (f, r) \<Longrightarrow> length r \<le> length s"
  by (auto simp: fraction_def split: list.splits if_splits dest!: digits_length)

lemma exponent_length: "exponent s = Some (e, r) \<Longrightarrow> length r \<le> length s"
  by (auto simp: exponent_def split: list.splits if_splits dest!: digits_length)

lemma parse_number_length:
  assumes "parse_number s = Some (lexeme, r)"
  shows "length r < length s"
proof -
  obtain sign s1 where s1: "(case s of [] \<Rightarrow> ([], s) | c # r \<Rightarrow> if c = 0x2D then ([c], r) else ([], s)) = (sign, s1)"
    by (cases "(case s of [] \<Rightarrow> ([], s) | c # r \<Rightarrow> if c = 0x2D then ([c], r) else ([], s))") auto
  then have l1: "length s1 \<le> length s"
    by (auto split: list.splits if_splits)
  from assms s1 obtain ds s2 frac s3 ex where
    d: "digits s1 = Some (ds, s2)" and f: "fraction s2 = Some (frac, s3)" and e: "exponent s3 = Some (ex, r)"
    by (auto simp: parse_number_def split: option.splits if_splits)
  from digits_length [OF d] fraction_length [OF f] exponent_length [OF e] l1 show ?thesis
    by simp
qed

lemma parse_scalar_length: "parse_scalar c cs = Inr (v, r) \<Longrightarrow> length r \<le> length cs"
proof -
  assume a: "parse_scalar c cs = Inr (v, r)"
  consider (str) k where "parse_chars cs = Some (k, r)"
    | (lit) ps where "strip_prefix ps cs = Some r"
    | (num) lexeme where "parse_number (c # cs) = Some (lexeme, r)"
    using a by (auto simp: parse_scalar_def split: if_splits option.splits)
  then show ?thesis
  proof cases
    case str
    then show ?thesis using parse_chars_length by fastforce
  next
    case lit
    then show ?thesis by (rule strip_prefix_length)
  next
    case num
    then show ?thesis using parse_number_length by fastforce
  qed
qed

lemma parse_value_Suc_length:
  assumes IH: "(\<forall>s v r. parse_value n s = Inr (v, r) \<longrightarrow> length r < length s)
      \<and> (\<forall>s vs r. parse_elements n s = Inr (vs, r) \<longrightarrow> length r < length s)
      \<and> (\<forall>s ms r. parse_members n s = Inr (ms, r) \<longrightarrow> length r < length s)"
    and res: "parse_value (Suc n) s = Inr (v, r)"
  shows "length r < length s"
proof -
  from IH have val: "\<And>s' v' r'. parse_value n s' = Inr (v', r') \<Longrightarrow> length r' < length s'"
    and els: "\<And>s' vs' r'. parse_elements n s' = Inr (vs', r') \<Longrightarrow> length r' < length s'"
    and mem: "\<And>s' ms' r'. parse_members n s' = Inr (ms', r') \<Longrightarrow> length r' < length s'"
    by blast+
  from res obtain c cs where sk: "skip_ws s = c # cs"
    by (cases "skip_ws s") auto
  then have cs: "length cs < length s" by (rule skip_ws_Cons_length)
  show ?thesis
  proof (cases "c = 0x7B \<or> c = 0x5B")
    case False
    with res sk have "parse_scalar c cs = Inr (v, r)" by auto
    from parse_scalar_length [OF this] cs show ?thesis by simp
  next
    case True
    with res sk obtain d ds where sk2: "skip_ws cs = d # ds"
      by (cases "skip_ws cs") (auto split: if_splits)
    then have ds: "length ds < length cs" by (rule skip_ws_Cons_length)
    consider (empty) "r = ds"
      | (members) ms where "parse_members n (d # ds) = Inr (ms, r)"
      | (elements) vs where "parse_elements n (d # ds) = Inr (vs, r)"
      using res sk sk2 True by (auto split: if_splits sum.splits)
    then show ?thesis
    proof cases
      case empty
      with ds cs show ?thesis by simp
    next
      case members
      from mem [OF this] ds cs show ?thesis by simp
    next
      case elements
      from els [OF this] ds cs show ?thesis by simp
    qed
  qed
qed

lemma parse_elements_Suc_length:
  assumes IH: "(\<forall>s v r. parse_value n s = Inr (v, r) \<longrightarrow> length r < length s)
      \<and> (\<forall>s vs r. parse_elements n s = Inr (vs, r) \<longrightarrow> length r < length s)
      \<and> (\<forall>s ms r. parse_members n s = Inr (ms, r) \<longrightarrow> length r < length s)"
    and res: "parse_elements (Suc n) s = Inr (vs, r)"
  shows "length r < length s"
proof -
  from IH have val: "\<And>s' v' r'. parse_value n s' = Inr (v', r') \<Longrightarrow> length r' < length s'"
    and els: "\<And>s' vs' r'. parse_elements n s' = Inr (vs', r') \<Longrightarrow> length r' < length s'"
    and mem: "\<And>s' ms' r'. parse_members n s' = Inr (ms', r') \<Longrightarrow> length r' < length s'"
    by blast+
  from res obtain v r1 where v: "parse_value n s = Inr (v, r1)"
    by (cases "parse_value n s") auto
  with res obtain c cs where sk: "skip_ws r1 = c # cs"
    by (cases "skip_ws r1") auto
  from val [OF v] skip_ws_Cons_length [OF sk] have cs: "length cs < length s" by simp
  consider (last) "r = cs" | (more) vs' where "parse_elements n cs = Inr (vs', r)"
    using res v sk by (auto split: if_splits sum.splits)
  then show ?thesis
  proof cases
    case last
    with cs show ?thesis by simp
  next
    case more
    from els [OF this] cs show ?thesis by simp
  qed
qed

lemma parse_members_Suc_length:
  assumes IH: "(\<forall>s v r. parse_value n s = Inr (v, r) \<longrightarrow> length r < length s)
      \<and> (\<forall>s vs r. parse_elements n s = Inr (vs, r) \<longrightarrow> length r < length s)
      \<and> (\<forall>s ms r. parse_members n s = Inr (ms, r) \<longrightarrow> length r < length s)"
    and res: "parse_members (Suc n) s = Inr (ms, r)"
  shows "length r < length s"
proof -
  from IH have val: "\<And>s' v' r'. parse_value n s' = Inr (v', r') \<Longrightarrow> length r' < length s'"
    and els: "\<And>s' vs' r'. parse_elements n s' = Inr (vs', r') \<Longrightarrow> length r' < length s'"
    and mem: "\<And>s' ms' r'. parse_members n s' = Inr (ms', r') \<Longrightarrow> length r' < length s'"
    by blast+
  from res obtain c cs where sk: "skip_ws s = c # cs"
    by (cases "skip_ws s") auto
  with res obtain k r1 where k: "parse_chars cs = Some (k, r1)"
    by (cases "parse_chars cs") (auto split: if_splits)
  with res sk obtain d ds where sk1: "skip_ws r1 = d # ds"
    by (cases "skip_ws r1") (auto split: if_splits)
  with res sk k obtain v r2 where v: "parse_value n ds = Inr (v, r2)"
    by (cases "parse_value n ds") (auto split: if_splits)
  with res sk k sk1 obtain e es where sk2: "skip_ws r2 = e # es"
    by (cases "skip_ws r2") (auto split: if_splits)
  from skip_ws_Cons_length [OF sk] parse_chars_length [OF k] skip_ws_Cons_length [OF sk1]
    val [OF v] skip_ws_Cons_length [OF sk2]
  have es: "length es < length s" by simp
  consider (last) "r = es" | (more) ms' where "parse_members n es = Inr (ms', r)"
    using res sk k sk1 v sk2 by (auto split: if_splits sum.splits)
  then show ?thesis
  proof cases
    case last
    with es show ?thesis by simp
  next
    case more
    from mem [OF this] es show ?thesis by simp
  qed
qed

lemma parse_shrinks:
  "(\<forall>s v r. parse_value n s = Inr (v, r) \<longrightarrow> length r < length s)
   \<and> (\<forall>s vs r. parse_elements n s = Inr (vs, r) \<longrightarrow> length r < length s)
   \<and> (\<forall>s ms r. parse_members n s = Inr (ms, r) \<longrightarrow> length r < length s)"
proof (induction n)
  case 0
  show ?case by simp
next
  case (Suc n)
  show ?case
    using parse_value_Suc_length [OF Suc.IH] parse_elements_Suc_length [OF Suc.IH]
      parse_members_Suc_length [OF Suc.IH]
    by blast
qed

lemma parse_value_length: "parse_value n s = Inr (v, r) \<Longrightarrow> length r < length s"
  using parse_shrinks by blast

lemma parse_scalar_fuel: "parse_scalar c cs \<noteq> Inl OutOfFuel"
  by (simp add: parse_scalar_def split: option.splits)

lemma enough_fuel:
  "(\<forall>s. 2 * length s < n \<longrightarrow> parse_value n s \<noteq> Inl OutOfFuel)
   \<and> (\<forall>s. 2 * length s + 1 < n \<longrightarrow> parse_elements n s \<noteq> Inl OutOfFuel)
   \<and> (\<forall>s. 2 * length s + 1 < n \<longrightarrow> parse_members n s \<noteq> Inl OutOfFuel)"
proof (induction n)
  case 0
  show ?case by simp
next
  case (Suc n)
  then have val: "\<And>s'. 2 * length s' < n \<Longrightarrow> parse_value n s' \<noteq> Inl OutOfFuel"
    and els: "\<And>s'. 2 * length s' + 1 < n \<Longrightarrow> parse_elements n s' \<noteq> Inl OutOfFuel"
    and mem: "\<And>s'. 2 * length s' + 1 < n \<Longrightarrow> parse_members n s' \<noteq> Inl OutOfFuel"
    by blast+
  have 1: "parse_value (Suc n) s \<noteq> Inl OutOfFuel" if n: "2 * length s < Suc n" for s
  proof
    assume out: "parse_value (Suc n) s = Inl OutOfFuel"
    then obtain c cs where sk: "skip_ws s = c # cs"
      by (cases "skip_ws s") auto
    from out sk parse_scalar_fuel [of c cs] have "c = 0x7B \<or> c = 0x5B"
      by (auto split: if_splits)
    with out sk obtain d ds where sk2: "skip_ws cs = d # ds"
      by (cases "skip_ws cs") (auto split: if_splits)
    from out sk sk2 parse_scalar_fuel [of c cs]
    have "parse_members n (d # ds) = Inl OutOfFuel \<or> parse_elements n (d # ds) = Inl OutOfFuel"
      by (auto split: if_splits sum.splits)
    moreover from skip_ws_Cons_length [OF sk] skip_ws_length [of cs] sk2 n
    have "2 * length (d # ds) + 1 < n" by simp
    ultimately show False using els mem by blast
  qed
  have 2: "parse_elements (Suc n) s \<noteq> Inl OutOfFuel" if n: "2 * length s + 1 < Suc n" for s
  proof
    assume out: "parse_elements (Suc n) s = Inl OutOfFuel"
    from n have "2 * length s < n" by simp
    from val [OF this] out obtain v r1 where v: "parse_value n s = Inr (v, r1)"
      by (cases "parse_value n s") (auto split: sum.splits)
    with out obtain c cs where sk: "skip_ws r1 = c # cs"
      by (cases "skip_ws r1") auto
    from out v sk have "parse_elements n cs = Inl OutOfFuel"
      by (auto split: if_splits sum.splits)
    moreover from parse_value_length [OF v] skip_ws_Cons_length [OF sk] n
    have "2 * length cs + 1 < n" by simp
    ultimately show False using els by blast
  qed
  have 3: "parse_members (Suc n) s \<noteq> Inl OutOfFuel" if n: "2 * length s + 1 < Suc n" for s
  proof
    assume out: "parse_members (Suc n) s = Inl OutOfFuel"
    then obtain c cs where sk: "skip_ws s = c # cs"
      by (cases "skip_ws s") auto
    with out obtain k r1 where k: "parse_chars cs = Some (k, r1)"
      by (cases "parse_chars cs") (auto split: if_splits)
    with out sk obtain d ds where sk1: "skip_ws r1 = d # ds"
      by (cases "skip_ws r1") (auto split: if_splits)
    from skip_ws_Cons_length [OF sk] parse_chars_length [OF k] skip_ws_Cons_length [OF sk1] n
    have ds: "2 * length ds < n" "length ds < length s" by simp_all
    from val [OF ds(1)] out sk k sk1 obtain v r2 where v: "parse_value n ds = Inr (v, r2)"
      by (cases "parse_value n ds") (auto split: if_splits sum.splits)
    with out sk k sk1 obtain e es where sk2: "skip_ws r2 = e # es"
      by (cases "skip_ws r2") (auto split: if_splits)
    from out sk k sk1 v sk2 have "parse_members n es = Inl OutOfFuel"
      by (auto split: if_splits sum.splits)
    moreover from parse_value_length [OF v] skip_ws_Cons_length [OF sk2] ds(2) n
    have "2 * length es + 1 < n" by simp
    ultimately show False using mem by blast
  qed
  from 1 2 3 show ?case by blast
qed

lemma JSON_parse_total: "JSON_parse s \<noteq> Inl OutOfFuel"
proof -
  have "parse_value (Suc (2 * length s)) s \<noteq> Inl OutOfFuel"
    using enough_fuel [of "Suc (2 * length s)"] by simp
  then show ?thesis
    by (auto simp: JSON_parse_def split: sum.splits)
qed

subsection \<open>Reading back what \<^verbatim>\<open>JSON.stringify\<close> wrote\<close>

lemma unat_hexdigit: "d < 16 \<Longrightarrow> unat (hexdigit d) = (if d < 10 then 48 + d else 87 + d)"
  by (simp add: hexdigit_def unat_of_nat take_bit_nat_eq_self)

lemma unhex_hexdigit: "d < 16 \<Longrightarrow> unhex (hexdigit d) = Some d"
  by (simp add: unhex_def word_le_nat_alt unat_hexdigit)

lemma hex_digits_value:
  fixes n :: nat
  assumes "n < 65536"
  shows "((n div 4096 mod 16 * 16 + n div 256 mod 16) * 16 + n div 16 mod 16) * 16 + n mod 16 = n"
proof -
  define a where "a = n div 16"
  define b where "b = a div 16"
  define c where "c = b div 16"
  have b256: "n div 256 = b"
    unfolding b_def a_def by (simp add: div_mult2_eq [symmetric])
  have c4096: "n div 4096 = c"
    unfolding c_def b_def a_def by (simp add: div_mult2_eq [symmetric])
  have "c < 16" using assms unfolding c4096 [symmetric] by simp
  then have c16: "c mod 16 = c" by simp
  have n: "n = a * 16 + n mod 16" unfolding a_def by simp
  have a: "a = b * 16 + a mod 16" unfolding b_def by simp
  have b: "b = c * 16 + b mod 16" unfolding c_def by simp
  have "((c * 16 + b mod 16) * 16 + a mod 16) * 16 + n mod 16 = n"
    using n a b by simp
  then show ?thesis
    unfolding c4096 b256 c16 a_def [symmetric] .
qed

lemma unhex4_unicode_escape:
  "unicode_escape c = [0x5C, 0x75, h3, h2, h1, h0] \<Longrightarrow> unhex4 h3 h2 h1 h0 = Some c"
proof -
  assume e: "unicode_escape c = [0x5C, 0x75, h3, h2, h1, h0]"
  have lt: "unat c < 65536" using unsigned_less [of c, where ?'a = nat] by simp
  from e have h: "h3 = hexdigit (unat c div 4096 mod 16)" "h2 = hexdigit (unat c div 256 mod 16)"
    "h1 = hexdigit (unat c div 16 mod 16)" "h0 = hexdigit (unat c mod 16)"
    by (simp_all add: unicode_escape_def)
  have d: "unhex (hexdigit (unat c div 4096 mod 16)) = Some (unat c div 4096 mod 16)"
    "unhex (hexdigit (unat c div 256 mod 16)) = Some (unat c div 256 mod 16)"
    "unhex (hexdigit (unat c div 16 mod 16)) = Some (unat c div 16 mod 16)"
    "unhex (hexdigit (unat c mod 16)) = Some (unat c mod 16)"
    by (simp_all add: unhex_hexdigit)
  have round: "(of_nat (unat c) :: code_unit) = c" by simp
  show ?thesis
    unfolding h unhex4_def
    by (simp only: d prod.case option.case hex_digits_value [OF lt] round)
qed

lemma parse_chars_verbatim:
  "c \<noteq> 0x22 \<Longrightarrow> c \<noteq> 0x5C \<Longrightarrow> \<not> c < 0x20 \<Longrightarrow>
     parse_chars (c # r) = map_option (\<lambda>(str, rest). (c # str, rest)) (parse_chars r)"
  by simp

lemma parse_chars_quote_unit:
  "parse_chars (quote_unit c @ r) = map_option (\<lambda>(str, rest). (c # str, rest)) (parse_chars r)"
proof (cases "c < 0x20 \<or> is_lead c \<or> is_trail c")
  case True
  obtain h3 h2 h1 h0 where e: "unicode_escape c = [0x5C, 0x75, h3, h2, h1, h0]"
    by (simp add: unicode_escape_def)
  from unhex4_unicode_escape [OF e] show ?thesis
    by (simp add: quote_unit_def e unescape_def)
next
  case False
  then show ?thesis
    by (simp add: quote_unit_def unescape_def)
qed

lemma surrogate_verbatim:
  "is_lead c \<or> is_trail c \<Longrightarrow> c \<noteq> 0x22 \<and> c \<noteq> 0x5C \<and> \<not> c < 0x20"
  by (auto simp: is_lead_def is_trail_def word_le_nat_alt word_less_nat_alt)

lemma parse_chars_quote_units:
  "parse_chars (quote_units s @ 0x22 # rest) = Some (s, rest)"
proof (induction s rule: quote_units.induct)
  case 1
  show ?case by simp
next
  case (2 c)
  show ?case by (simp add: parse_chars_quote_unit del: parse_chars.simps) simp
next
  case (3 c d ds)
  show ?case
  proof (cases "is_lead c \<and> is_trail d")
    case True
    with surrogate_verbatim [of c] surrogate_verbatim [of d] "3.IH"(1) show ?thesis
      by (simp add: parse_chars_verbatim del: parse_chars.simps)
  next
    case False
    with "3.IH"(2) show ?thesis
      by (auto simp add: parse_chars_quote_unit simp del: parse_chars.simps)
  qed
qed

lemma skip_ws_nonspace: "\<not> is_ws c \<Longrightarrow> skip_ws (c # cs) = c # cs"
  by (simp add: skip_ws_def)

lemma parse_value_string:
  "parse_value (Suc n) (QuoteJSONString s @ rest) = Inr (JString s, rest)"
  by (simp add: QuoteJSONString_def skip_ws_nonspace is_ws_def parse_chars_quote_units
      parse_scalar_def del: parse_chars.simps)

lemma parse_value_bool:
  "parse_value (Suc n) ((if b then ascii ''true'' else ascii ''false'') @ 0x7D # rest)
     = Inr (JBool b, 0x7D # rest)"
  by (simp add: ascii_def skip_ws_nonspace is_ws_def parse_scalar_def)

lemma parse_members_more:
  "parse_value n (vtext @ 0x2C # r) = Inr (v, 0x2C # r) \<Longrightarrow>
     parse_members (Suc n) (QuoteJSONString k @ 0x3A # vtext @ 0x2C # r)
       = (case parse_members n r of
            Inl e \<Rightarrow> Inl e
          | Inr (ms, r3) \<Rightarrow> Inr ((k, v) # ms, r3))"
  by (simp add: QuoteJSONString_def skip_ws_nonspace is_ws_def parse_chars_quote_units
      del: parse_chars.simps)

lemma parse_members_last:
  "parse_value n (vtext @ 0x7D # r) = Inr (v, 0x7D # r) \<Longrightarrow>
     parse_members (Suc n) (QuoteJSONString k @ 0x3A # vtext @ 0x7D # r) = Inr ([(k, v)], r)"
  by (simp add: QuoteJSONString_def skip_ws_nonspace is_ws_def parse_chars_quote_units
      del: parse_chars.simps)

lemma parse_members_task:
  "parse_members (Suc (Suc (Suc (Suc n))))
     (QuoteJSONString (ascii ''id'') @ 0x3A # QuoteJSONString (id_t t)
      @ 0x2C # QuoteJSONString (ascii ''description'') @ 0x3A # QuoteJSONString (description t)
      @ 0x2C # QuoteJSONString (ascii ''isCompleted'') @ 0x3A
        # (if isCompleted t then ascii ''true'' else ascii ''false'')
      @ 0x7D # rest)
   = Inr ([(ascii ''id'', JString (id_t t)),
           (ascii ''description'', JString (description t)),
           (ascii ''isCompleted'', JBool (isCompleted t))], rest)"
  by (simp only: parse_members_more [OF parse_value_string] parse_members_last [OF parse_value_bool]
      sum.case prod.case)

lemma stringify_task_text:
  "stringify_task t @ rest =
     0x7B # QuoteJSONString (ascii ''id'') @ 0x3A # QuoteJSONString (id_t t)
      @ 0x2C # QuoteJSONString (ascii ''description'') @ 0x3A # QuoteJSONString (description t)
      @ 0x2C # QuoteJSONString (ascii ''isCompleted'') @ 0x3A
        # (if isCompleted t then ascii ''true'' else ascii ''false'')
      @ 0x7D # rest"
  by (simp add: stringify_task_def)

lemma parse_value_object:
  "parse_members n (QuoteJSONString k @ r) = Inr (ms, r') \<Longrightarrow>
     parse_value (Suc n) (0x7B # QuoteJSONString k @ r) = Inr (JObject ms, r')"
  by (simp add: QuoteJSONString_def skip_ws_nonspace is_ws_def del: parse_chars.simps)

lemma parse_value_task:
  "parse_value (Suc (Suc (Suc (Suc (Suc n))))) (stringify_task t @ rest) = Inr (task_json t, rest)"
  unfolding stringify_task_text task_json_def
  by (rule parse_value_object) (rule parse_members_task)

lemma parse_value_task_fuel:
  assumes "5 \<le> n"
  shows "parse_value n (stringify_task t @ rest) = Inr (task_json t, rest)"
proof -
  from assms have "n = Suc (Suc (Suc (Suc (Suc (n - 5)))))"
    by simp
  then obtain m where "n = Suc (Suc (Suc (Suc (Suc m))))" ..
  then show ?thesis by (simp only: parse_value_task)
qed

lemma parse_elements_tasks:
  "ts \<noteq> [] \<Longrightarrow> length ts + 5 \<le> n \<Longrightarrow>
     parse_elements n (stringify_elements ts @ 0x5D # rest) = Inr (map task_json ts, rest)"
proof (induction ts arbitrary: n rule: stringify_elements.induct)
  case 1
  then show ?case by simp
next
  case (2 t)
  then obtain m where n: "n = Suc m" and m: "5 \<le> m"
    by (cases n) auto
  show ?case
    unfolding n
    by (simp add: parse_value_task_fuel [OF m] skip_ws_nonspace is_ws_def del: parse_value.simps)
next
  case (3 t u us)
  then obtain m where n: "n = Suc m" and m: "5 \<le> m" and m': "length (u # us) + 5 \<le> m"
    by (cases n) auto
  have "parse_elements m (stringify_elements (u # us) @ 0x5D # rest) = Inr (map task_json (u # us), rest)"
    using "3.IH" [OF _ m'] by simp
  then show ?case
    unfolding n
    by (simp add: parse_value_task_fuel [OF m] skip_ws_nonspace is_ws_def
        del: parse_value.simps stringify_elements.simps(3)
        add: stringify_elements.simps(3) [of t u us])
qed

lemma stringify_task_length: "5 \<le> length (stringify_task t)"
  by (simp add: stringify_task_def QuoteJSONString_def)

lemma stringify_elements_length:
  "ts \<noteq> [] \<Longrightarrow> length ts + 4 \<le> length (stringify_elements ts)"
proof (induction ts rule: stringify_elements.induct)
  case (2 t)
  then show ?case using stringify_task_length [of t] by simp
next
  case (3 t u us)
  then show ?case using stringify_task_length [of t] by simp
qed simp

lemma stringify_elements_head:
  "ts \<noteq> [] \<Longrightarrow> \<exists>r. stringify_elements ts = 0x7B # r"
  by (induction ts rule: stringify_elements.induct) (simp_all add: stringify_task_def)

lemma as_task_task_json: "as_task (task_json t) = Some t"
  by (simp add: task_json_def)

lemma as_tasks_task_json: "as_tasks (JArray (map task_json ts)) = Some ts"
  by (induction ts) (simp_all add: as_task_task_json)

lemma parse_value_empty_array:
  "parse_value (Suc n) (0x5B # 0x5D # rest) = Inr (JArray [], rest)"
  by (simp add: skip_ws_nonspace is_ws_def)

lemma JSON_parse_stringify: "JSON_parse (JSON_stringify ts) = Inr (JArray (map task_json ts))"
proof (cases "ts = []")
  case True
  have "parse_value (Suc (2 * length (JSON_stringify ts))) (JSON_stringify ts) = Inr (JArray [], [])"
    unfolding True JSON_stringify_def stringify_elements.simps append_Nil
    by (rule parse_value_empty_array)
  then show ?thesis
    by (simp add: JSON_parse_def True skip_ws_def)
next
  case False
  from stringify_elements_head [OF False] obtain r where r: "stringify_elements ts = 0x7B # r" ..
  have fuel: "length ts + 5 \<le> 2 * length (JSON_stringify ts)"
    using stringify_elements_length [OF False] by (simp add: JSON_stringify_def)
  have "parse_elements (2 * length (JSON_stringify ts)) (stringify_elements ts @ 0x5D # []) = Inr (map task_json ts, [])"
    using False fuel by (rule parse_elements_tasks)
  then have "parse_value (Suc (2 * length (JSON_stringify ts))) (JSON_stringify ts) = Inr (JArray (map task_json ts), [])"
    unfolding JSON_stringify_def [of ts, THEN arg_cong [where f = "parse_value (Suc (2 * length (JSON_stringify ts)))"]]
    by (simp add: r skip_ws_nonspace is_ws_def del: parse_elements.simps)
  then show ?thesis
    by (simp add: JSON_parse_def skip_ws_def)
qed

subsection \<open>Calls and their settlement\<close>

lemma settle_last: "settle (length (inflight a)) r (call c a) = resume c r a"
  by (simp add: settle_def call_def)

lemma last_call: "last (inflight (call c a)) = c"
  by (simp add: call_def)

text \<open>
  A rejected call never changes \<^verbatim>\<open>tasks\<close> or the cache, whatever else has happened
  since the call was made; a fulfilled update or delete works on the array its handler
  closed over.
\<close>

lemma rejected_keeps_tasks:
  "settle k Rejected a = Some b \<Longrightarrow> tasks b = tasks a \<and> storage b = storage a"
  by (cases "inflight a ! k") (auto simp: settle_def setLoading_def split: if_splits)

lemma fulfilled_update_uses_captured:
  "k < length (inflight a) \<Longrightarrow> inflight a ! k = UpdateTask i d c captured \<Longrightarrow>
     \<exists>b. settle k (Task_reply updated) a = Some b
        \<and> tasks b = map (\<lambda>t. if id_t t = i then updated else t) captured"
  by (simp add: settle_def setTasks_def save_effect_def)

lemma fulfilled_delete_uses_captured:
  "k < length (inflight a) \<Longrightarrow> inflight a ! k = DeleteTask i captured \<Longrightarrow>
     \<exists>b. settle k Void_reply a = Some b \<and> tasks b = filter (\<lambda>t. id_t t \<noteq> i) captured"
  by (simp add: settle_def setTasks_def save_effect_def)

subsection \<open>Mounting with a cache\<close>

lemma mount_parse_error:
  "saved \<noteq> [] \<Longrightarrow> JSON_parse saved = Inl e \<Longrightarrow> mount (Some saved) = Inl (Thrown e)"
  by (simp add: mount_def load_effect_def initial_def)

lemma JSON_parse_open_brace: "JSON_parse [0x7B] = Inl SyntaxError"
proof -
  have "parse_value (Suc n) [0x7B] = Inl SyntaxError" for n
    by (simp add: skip_ws_def is_ws_def)
  then show ?thesis
    by (simp only: JSON_parse_def sum.case)
qed

text \<open>
  Claim C2 says that a cached text which \<^verbatim>\<open>JSON.parse\<close> rejects is treated like a
  missing one. It is not: the first effect has no \<^verbatim>\<open>try\<close> around
  \<^verbatim>\<open>JSON.parse(saved)\<close>, so the SyntaxError leaves the effect before
  \<^verbatim>\<open>loadTasks()\<close> is reached. With the cached text \<^verbatim>\<open>{\<close> mounting ends in the
  exception and no fetch is made; with no cache it ends in a state with the fetch in
  flight.
\<close>

theorem malformed_cache_aborts_mount:
  "JSON_parse (ascii ''{'') = Inl SyntaxError
   \<and> mount (Some (ascii ''{'')) = Inl (Thrown SyntaxError)
   \<and> mount None = Inr (call GetTasks idle)"
proof -
  have b: "ascii ''{'' = [0x7B]" by (simp add: ascii_def)
  have "mount None = Inr (call GetTasks idle)"
    by (simp add: mount_def load_effect_def initial_def loadTasks_def call_def save_effect_def
        idle_def)
  with JSON_parse_open_brace mount_parse_error [OF _ JSON_parse_open_brace] show ?thesis
    unfolding b by simp
qed

lemma JSON_stringify_nonempty: "JSON_stringify ts \<noteq> []"
  by (simp add: JSON_stringify_def)

lemma mount_stringify:
  "mount (Some (JSON_stringify ts)) =
     Inr \<lparr> tasks = ts, newTask = [], loading = False, filter_s = Filter_all,
           storage = Some (JSON_stringify ts), inflight = [GetTasks] \<rparr>"
  by (simp add: mount_def load_effect_def initial_def JSON_stringify_nonempty JSON_parse_stringify
      as_tasks_task_json loadTasks_def call_def setTasks_def save_effect_def
      del: as_tasks.simps)

text \<open>
  Claim C3. Whatever task collection \<open>ts\<close> the component has written to the cache, a
  fresh mount with that cache has \<open>tasks = ts\<close> and the fetch in flight, and when the
  fetch is rejected \<open>tasks\<close> is still \<open>ts\<close>: the same elements in the same order.
\<close>

theorem cache_round_trip:
  "\<exists>a b. mount (storage (setTasks ts c)) = Inr a \<and> tasks a = ts \<and> inflight a = [GetTasks]
         \<and> settle 0 Rejected a = Some b \<and> tasks b = ts"
  by (simp add: setTasks_def save_effect_def mount_stringify settle_def)

theorem cache_round_trip_witness:
  "\<exists>a b. mount (storage (setTasks [milk, bread] idle)) = Inr a \<and> tasks a = [milk, bread]
         \<and> inflight a = [GetTasks] \<and> settle 0 Rejected a = Some b \<and> tasks b = [milk, bread]"
  using cache_round_trip [of "[milk, bread]" idle] .

subsection \<open>Creating a task\<close>

text \<open>
  Claim C4. When \<^verbatim>\<open>newTask\<close> is empty after trimming, \<^verbatim>\<open>handleAddTask\<close> returns the
  state as it was: no call is added to those in flight and \<^verbatim>\<open>tasks\<close> is unchanged.
\<close>

theorem blank_description_is_noop:
  "trim (newTask a) = [] \<Longrightarrow>
     handleAddTask a = a \<and> inflight (handleAddTask a) = inflight a
     \<and> tasks (handleAddTask a) = tasks a"
  by (simp add: handleAddTask_def)

theorem blank_description_is_noop_witness:
  "trim (newTask (setNewTask [0x20, 0x09, 0x20] two_tasks)) = []
   \<and> handleAddTask (setNewTask [0x20, 0x09, 0x20] two_tasks) = setNewTask [0x20, 0x09, 0x20] two_tasks
   \<and> inflight (handleAddTask (setNewTask [0x20, 0x09, 0x20] two_tasks)) = []
   \<and> tasks (handleAddTask (setNewTask [0x20, 0x09, 0x20] two_tasks)) = [milk, bread]"
proof -
  have blank: "trim (newTask (setNewTask [0x20, 0x09, 0x20] two_tasks)) = []"
    by (simp add: setNewTask_def trim_def is_trim_space_def)
  from blank blank_description_is_noop [OF blank] show ?thesis
    by (simp add: setNewTask_def two_tasks_def)
qed

lemma filter_without_nth:
  assumes "k < length xs"
  shows "length (filter P (take k xs @ drop (Suc k) xs)) + (if P (xs ! k) then 1 else 0)
           = length (filter P xs)"
proof -
  have "xs = take k xs @ xs ! k # drop (Suc k) xs"
    using assms by (rule id_take_nth_drop)
  then have "filter P xs = filter P (take k xs) @ filter P [xs ! k] @ filter P (drop (Suc k) xs)"
    by (metis append_Cons append_Nil filter_append)
  then show ?thesis by simp
qed

lemma creates_mount: "mount item = Inr a \<Longrightarrow> creates_in_flight a = 0 \<and> \<not> loading a"
  by (auto simp: mount_def load_effect_def initial_def loadTasks_def call_def save_effect_def
      setTasks_def creates_in_flight_def split: option.splits if_splits sum.splits)

lemma resume_create:
  "resume (CreateTask d cap) r a = Some b \<Longrightarrow> \<not> loading b \<and> inflight b = inflight a"
  by (cases r) (auto simp: setTasks_def save_effect_def setLoading_def setNewTask_def)

lemma resume_other:
  "\<not> is_create c \<Longrightarrow> resume c r a = Some b \<Longrightarrow> loading b = loading a \<and> inflight b = inflight a"
  by (cases c; cases r) (auto simp: setTasks_def save_effect_def)

lemma creates_step:
  assumes "step a b" and "creates_in_flight a = (if loading a then 1 else 0)"
  shows "creates_in_flight b = (if loading b then 1 else 0)"
  using assms
proof (cases rule: step.cases)
  case (settling k r)
  then have k: "k < length (inflight a)"
    and res: "resume (inflight a ! k) r (a\<lparr>inflight := take k (inflight a) @ drop (Suc k) (inflight a)\<rparr>) = Some b"
    by (auto simp: settle_def split: if_splits)
  from filter_without_nth [OF k, of is_create]
  have cnt: "length (filter is_create (take k (inflight a) @ drop (Suc k) (inflight a)))
        + (if is_create (inflight a ! k) then 1 else 0) = creates_in_flight a"
    by (simp add: creates_in_flight_def)
  show ?thesis
  proof (cases "is_create (inflight a ! k)")
    case True
    then obtain d cap where c: "inflight a ! k = CreateTask d cap"
      by (cases "inflight a ! k") auto
    from resume_create [OF res [unfolded c]] cnt True assms(2) show ?thesis
      by (auto simp: creates_in_flight_def split: if_splits)
  next
    case False
    from resume_other [OF False res] cnt False assms(2) show ?thesis
      by (auto simp: creates_in_flight_def split: if_splits)
  qed
qed (use assms(2) in \<open>auto simp: creates_in_flight_def setNewTask_def submit_def add_button_disabled_def
      handleAddTask_def call_def setLoading_def setFilter_def handleToggleComplete_def handleDeleteTask_def\<close>)

lemma creates_reachable: "reachable a \<Longrightarrow> creates_in_flight a = (if loading a then 1 else 0)"
proof (induction rule: reachable.induct)
  case (mounted item a)
  then show ?case using creates_mount by simp
next
  case (stepped a b)
  then show ?case using creates_step by blast
qed

lemma trim_Buy_milk: "trim (ascii ''Buy milk'') = ascii ''Buy milk''"
  by (simp add: trim_def ascii_def is_trim_space_def)

lemma Buy_milk_nonempty: "ascii ''Buy milk'' \<noteq> []"
  by (simp add: ascii_def)

lemma reachable_idle: "reachable idle"
proof -
  have "mount None = Inr (idle\<lparr>inflight := [GetTasks]\<rparr>)"
    by (simp add: mount_def load_effect_def initial_def loadTasks_def call_def save_effect_def idle_def)
  then have "reachable (idle\<lparr>inflight := [GetTasks]\<rparr>)" by (rule mounted)
  moreover have "settle 0 Rejected (idle\<lparr>inflight := [GetTasks]\<rparr>) = Some idle"
    by (simp add: settle_def idle_def)
  ultimately show ?thesis by (blast intro: stepped settling)
qed

lemma reachable_pending: "reachable pending"
proof -
  have "step idle (setNewTask (ascii ''Buy milk'') idle)"
    by (rule typing) (simp add: idle_def)
  with reachable_idle have r: "reachable (setNewTask (ascii ''Buy milk'') idle)"
    by (rule stepped)
  have "submit (setNewTask (ascii ''Buy milk'') idle) = pending"
    by (simp add: submit_def add_button_disabled_def handleAddTask_def setNewTask_def idle_def
        pending_def trim_Buy_milk Buy_milk_nonempty call_def setLoading_def)
  with submitting [of "setNewTask (ascii ''Buy milk'') idle"] r show ?thesis
    by (auto intro: stepped)
qed

text \<open>
  Claim C1, as amended. \<^verbatim>\<open>handleAddTask\<close> does not look at \<^verbatim>\<open>loading\<close>; the gate is
  the view's. While a create is pending the submit button is disabled, so submitting the
  form changes nothing: not the tasks, not the pending flag, not the calls in flight.
  In every state reached from mounting through the view's controls and the responses of
  the remote service, at most one create is in flight, and there is one exactly when
  \<^verbatim>\<open>loading\<close> is true.
\<close>

theorem create_gated_by_view:
  "(loading a \<longrightarrow> add_button_disabled a \<and> submit a = a)
   \<and> (reachable a \<longrightarrow> creates_in_flight a \<le> 1 \<and> (loading a \<longleftrightarrow> creates_in_flight a = 1))"
  using creates_reachable [of a] by (auto simp: add_button_disabled_def submit_def)

theorem create_gated_by_view_witness:
  "loading pending \<and> add_button_disabled pending \<and> submit pending = pending
   \<and> reachable pending \<and> creates_in_flight pending = 1"
  using create_gated_by_view [of pending] reachable_pending
  by (simp add: pending_def)

theorem handleAddTask_while_pending:
  "loading pending \<and> trim (newTask pending) \<noteq> [] \<and> creates_in_flight pending = 1
   \<and> creates_in_flight (handleAddTask pending) = 2
   \<and> (\<exists>b. settle 1 (Task_reply milk) (handleAddTask pending) = Some b
          \<and> length (tasks b) = Suc (length (tasks pending))
          \<and> \<not> loading b \<and> creates_in_flight b = 1)"
  by (simp add: pending_def handleAddTask_def trim_Buy_milk Buy_milk_nonempty creates_in_flight_def call_def
      setLoading_def settle_def setTasks_def save_effect_def setNewTask_def)

subsection \<open>Toggling and deleting\<close>

lemma ids:
  "id_t milk = ascii ''1''" "id_t bread = ascii ''2''" "id_t milk_done = ascii ''1''"
  "id_t bread_open = ascii ''2''" "id_t nine = ascii ''9''"
  "ascii ''2'' \<noteq> ascii ''1''" "ascii ''1'' \<noteq> ascii ''2''"
  by (simp_all add: milk_def bread_def milk_done_def bread_open_def nine_def ascii_def)

lemma reachable_two_tasks: "reachable two_tasks"
proof -
  have "mount (Some (JSON_stringify [milk, bread])) = Inr (two_tasks\<lparr>inflight := [GetTasks]\<rparr>)"
    by (simp add: mount_stringify two_tasks_def)
  then have "reachable (two_tasks\<lparr>inflight := [GetTasks]\<rparr>)" by (rule mounted)
  moreover have "settle 0 Rejected (two_tasks\<lparr>inflight := [GetTasks]\<rparr>) = Some two_tasks"
    by (simp add: settle_def two_tasks_def)
  ultimately show ?thesis by (blast intro: stepped settling)
qed

text \<open>
  Both checkboxes of \<open>two_tasks\<close> can be ticked one after the other before either update
  has ended: the state with the two updates in flight is reachable.
\<close>

lemma reachable_both_toggled:
  "reachable (handleToggleComplete bread (handleToggleComplete milk two_tasks))"
proof -
  have "step two_tasks (handleToggleComplete milk two_tasks)"
    by (rule toggling) (simp add: two_tasks_def filteredTasks_def)
  with reachable_two_tasks have r: "reachable (handleToggleComplete milk two_tasks)"
    by (rule stepped)
  have "step (handleToggleComplete milk two_tasks)
          (handleToggleComplete bread (handleToggleComplete milk two_tasks))"
    by (rule toggling)
      (simp add: two_tasks_def filteredTasks_def handleToggleComplete_def call_def)
  with r show ?thesis by (rule stepped)
qed

text \<open>
  An update that ends before anything else has happened does what one expects: each
  entry with the task's id becomes the returned task, every other entry stays, and a
  rejection gives back the state before the call.
\<close>

lemma toggle_settled_at_once:
  "task \<in> set (tasks a) \<Longrightarrow>
     (\<exists>b. settle (length (inflight a)) (Task_reply updated) (handleToggleComplete task a) = Some b
        \<and> list_all2 (\<lambda>old new. new = (if id_t old = id_t task then updated else old))
             (tasks a) (tasks b)
        \<and> updated \<in> set (tasks b))
     \<and> settle (length (inflight a)) Rejected (handleToggleComplete task a) = Some a"
  by (force simp: handleToggleComplete_def settle_last setTasks_def save_effect_def
      list_all2_map2 list_all2_same)

text \<open>
  Claim C5 says that a fulfilled update replaces exactly the entry whose id matches.
  The handler goes on with \<^verbatim>\<open>setTasks(tasks.map(t => t.id === task.id ? updated : t))\<close>,
  where \<^verbatim>\<open>tasks\<close> is the array of the render that made the call and not the collection
  of the moment the call ends. With the updates of two different tasks in flight the
  claim fails: in \<open>two_tasks\<close> the milk is ticked and then the bread; the first update is
  fulfilled with the milk completed and the collection shows it; the second is fulfilled
  with the bread reopened, and the collection is the old array with the bread replaced,
  so the milk is back to what it was before its update.
\<close>

theorem concurrent_toggles_lose_update:
  "\<exists>b c. settle 0 (Task_reply milk_done)
            (handleToggleComplete bread (handleToggleComplete milk two_tasks)) = Some b
         \<and> tasks b = [milk_done, bread]
         \<and> settle 0 (Task_reply bread_open) b = Some c
         \<and> tasks c = [milk, bread_open]"
  by (simp add: handleToggleComplete_def call_def settle_def setTasks_def save_effect_def
      two_tasks_def ids)

text \<open>
  Claim C10, as amended. A call made by \<^verbatim>\<open>handleToggleComplete\<close> in a state \<open>a0\<close> is
  fulfilled in a later state \<open>a\<close> whose collection is still the one of \<open>a0\<close>. Then the
  length of the collection is kept, and at every position the new entry is \<open>updated\<close> if
  the old entry has the task's id and the old entry otherwise. The sequence of ids is
  kept when \<open>updated\<close> carries the task's id, which the handler does not check. Nothing
  is said here about a collection that has changed between the call and its end.
\<close>

theorem toggleComplete_frame:
  "k < length (inflight a) \<Longrightarrow>
   inflight a ! k = last (inflight (handleToggleComplete task a0)) \<Longrightarrow>
   tasks a = tasks a0 \<Longrightarrow>
     \<exists>b. settle k (Task_reply updated) a = Some b
        \<and> length (tasks b) = length (tasks a)
        \<and> (\<forall>j < length (tasks a).
              tasks b ! j = (if id_t (tasks a ! j) = id_t task then updated else tasks a ! j))
        \<and> (id_t updated = id_t task \<longrightarrow> map id_t (tasks b) = map id_t (tasks a))"
  by (auto simp: handleToggleComplete_def last_call settle_def setTasks_def save_effect_def)

theorem toggleComplete_frame_witness:
  "0 < length (inflight (setFilter Filter_active (handleToggleComplete milk two_tasks)))
   \<and> inflight (setFilter Filter_active (handleToggleComplete milk two_tasks)) ! 0
       = last (inflight (handleToggleComplete milk two_tasks))
   \<and> tasks (setFilter Filter_active (handleToggleComplete milk two_tasks)) = tasks two_tasks
   \<and> id_t milk_done = id_t milk
   \<and> (\<exists>b. settle 0 (Task_reply milk_done)
              (setFilter Filter_active (handleToggleComplete milk two_tasks)) = Some b
        \<and> length (tasks b) = 2 \<and> tasks b ! 0 = milk_done \<and> tasks b ! 1 = bread
        \<and> map id_t (tasks b) = [ascii ''1'', ascii ''2''])"
proof -
  let ?a = "setFilter Filter_active (handleToggleComplete milk two_tasks)"
  have h1: "0 < length (inflight ?a)"
    by (simp add: setFilter_def handleToggleComplete_def call_def)
  have h2: "inflight ?a ! 0 = last (inflight (handleToggleComplete milk two_tasks))"
    by (simp add: setFilter_def handleToggleComplete_def call_def two_tasks_def)
  have h3: "tasks ?a = tasks two_tasks"
    by (simp add: setFilter_def handleToggleComplete_def call_def)
  have t: "tasks ?a = [milk, bread]"
    by (simp add: setFilter_def handleToggleComplete_def call_def two_tasks_def)
  from toggleComplete_frame [OF h1 h2 h3, of milk_done] obtain b
    where b: "settle 0 (Task_reply milk_done) ?a = Some b"
      and len: "length (tasks b) = length (tasks ?a)"
      and nth: "\<forall>j < length (tasks ?a).
              tasks b ! j = (if id_t (tasks ?a ! j) = id_t milk then milk_done else tasks ?a ! j)"
      and same: "id_t milk_done = id_t milk \<longrightarrow> map id_t (tasks b) = map id_t (tasks ?a)"
    by blast
  from nth have "tasks b ! 0 = milk_done" "tasks b ! 1 = bread"
    unfolding t by (simp_all add: ids)
  moreover from len same
  have "length (tasks b) = 2" "map id_t (tasks b) = [ascii ''1'', ascii ''2'']"
    by (simp_all add: t ids)
  ultimately show ?thesis
    using h1 h2 h3 b by (simp add: ids)
qed

text \<open>
  The claim as it was written fails in two ways. The service answers the update of the
  milk with a task of id \<^verbatim>\<open>9\<close>: the ids \<^verbatim>\<open>1, 2\<close> become \<^verbatim>\<open>9, 2\<close>. And the milk is
  ticked, the bread is deleted and the delete is fulfilled before the update is: the
  collection of one task becomes one of two, the deleted bread among them.
\<close>

theorem toggleComplete_frame_fails:
  "(\<exists>b. settle 0 (Task_reply nine) (handleToggleComplete milk two_tasks) = Some b
        \<and> map id_t (tasks two_tasks) = [ascii ''1'', ascii ''2'']
        \<and> map id_t (tasks b) = [ascii ''9'', ascii ''2''])
   \<and> (\<exists>b c. settle 1 Void_reply
                (handleDeleteTask (ascii ''2'') (handleToggleComplete milk two_tasks)) = Some b
          \<and> tasks b = [milk]
          \<and> settle 0 (Task_reply milk_done) b = Some c
          \<and> tasks c = [milk_done, bread])"
  by (simp add: handleToggleComplete_def handleDeleteTask_def call_def settle_def setTasks_def
      save_effect_def two_tasks_def ids)

lemma two_deletes:
  "settle 0 Void_reply
     (handleDeleteTask (ascii ''2'') (handleDeleteTask (ascii ''1'') two_tasks)) = Some bread_left"
  by (simp add: handleDeleteTask_def call_def settle_def setTasks_def save_effect_def
      two_tasks_def bread_left_def ids)



subsection \<open>The derived view and the counters\<close>

text \<open>
  Claim C7. With the filter \<^verbatim>\<open>'all'\<close> the filtered view is the collection itself: the
  same tasks in the same order, and so the same length.
\<close>

theorem filter_all_is_identity:
  "filteredTasks ts Filter_all = ts \<and> length (filteredTasks ts Filter_all) = length ts"
  by (simp add: filteredTasks_def)

theorem filter_all_is_identity_witness:
  "filteredTasks [milk, bread] Filter_all = [milk, bread]"
  using filter_all_is_identity [of "[milk, bread]"] by simp

text \<open>
  Claim C8, as amended. The ids of the active view and the ids of the completed view
  together are the ids of the collection, and no task is in both views. The two id sets
  are disjoint when the ids of the collection are pairwise distinct; the component does
  not enforce that, and with an id used twice the id sets can overlap.
\<close>

theorem filtered_ids_partition:
  "id_t ` set (filteredTasks ts Filter_active) \<union> id_t ` set (filteredTasks ts Filter_completed)
     = id_t ` set ts
   \<and> set (filteredTasks ts Filter_active) \<inter> set (filteredTasks ts Filter_completed) = {}
   \<and> (distinct (map id_t ts) \<longrightarrow>
        id_t ` set (filteredTasks ts Filter_active)
          \<inter> id_t ` set (filteredTasks ts Filter_completed) = {})"
proof (intro conjI impI)
  show "id_t ` set (filteredTasks ts Filter_active) \<union> id_t ` set (filteredTasks ts Filter_completed)
          = id_t ` set ts"
    by (auto simp: filteredTasks_def)
  show "set (filteredTasks ts Filter_active) \<inter> set (filteredTasks ts Filter_completed) = {}"
    by (auto simp: filteredTasks_def)
  assume "distinct (map id_t ts)"
  then have inj: "inj_on id_t (set ts)" by (simp add: distinct_map)
  show "id_t ` set (filteredTasks ts Filter_active)
          \<inter> id_t ` set (filteredTasks ts Filter_completed) = {}"
  proof (rule ccontr)
    assume "\<not> ?thesis"
    then obtain t u where t: "t \<in> set ts" "\<not> isCompleted t" and u: "u \<in> set ts" "isCompleted u"
      and e: "id_t t = id_t u"
      by (auto simp: filteredTasks_def)
    from inj e t(1) u(1) have "t = u" by (rule inj_onD)
    with t(2) u(2) show False by simp
  qed
qed

theorem filtered_ids_partition_witness:
  "distinct (map id_t [milk, bread])
   \<and> id_t ` set (filteredTasks [milk, bread] Filter_active)
       \<union> id_t ` set (filteredTasks [milk, bread] Filter_completed) = id_t ` set [milk, bread]
   \<and> id_t ` set (filteredTasks [milk, bread] Filter_active)
       \<inter> id_t ` set (filteredTasks [milk, bread] Filter_completed) = {}"
proof -
  have d: "distinct (map id_t [milk, bread])" by (simp add: milk_def bread_def ascii_def)
  with filtered_ids_partition [of "[milk, bread]"] show ?thesis by blast
qed

theorem filtered_ids_overlap:
  "id_t ` set (filteredTasks [milk, milk_done] Filter_active)
     \<inter> id_t ` set (filteredTasks [milk, milk_done] Filter_completed) \<noteq> {}
   \<and> ascii ''1'' \<in> id_t ` set (filteredTasks [milk, milk_done] Filter_active)
   \<and> ascii ''1'' \<in> id_t ` set (filteredTasks [milk, milk_done] Filter_completed)"
  by (simp add: filteredTasks_def milk_def milk_done_def)

text \<open>
  Claim C9. The counters add up: \<^verbatim>\<open>stats.total\<close> is \<^verbatim>\<open>stats.active\<close> plus
  \<^verbatim>\<open>stats.completed\<close>, for every collection.
\<close>

theorem stats_consistency: "total (stats ts) = active (stats ts) + completed (stats ts)"
  using sum_length_filter_compl [of "\<lambda>t. isCompleted t" ts] by (simp add: stats_def)

theorem stats_consistency_witness:
  "total (stats [milk, bread]) = 2 \<and> active (stats [milk, bread]) = 1 \<and> completed (stats [milk, bread]) = 1"
  using stats_consistency [of "[milk, bread]"] by (simp add: stats_def milk_def bread_def)

end
